theory Spec2Isabelle
  imports Main "HOL-Library.Char_ord" "HOL-Library.List_Lexorder"
begin

section \<open>The metadata store of fr::metadata::Metadata\<close>

text \<open>
  The class \<^verbatim>\<open>Metadata\<close> of \<^verbatim>\<open>include/fr/metadata/metadata.h\<close> holds one
  \<^verbatim>\<open>std::map<std::string, std::shared_ptr<std::map<std::string, std::string>>>\<close>
  and a mutex. This theory embeds the class as it runs on one thread: every member
  function is a function from the object's state to an outcome and the state it leaves
  behind. The mutex only serialises callers and is not part of the state.

  Strings are \<open>char list\<close>, ordered byte by byte (unsigned) and lexicographically, a
  proper prefix first, which is the order of \<^verbatim>\<open>std::less<std::string>\<close>. The parameter
  \<^verbatim>\<open>id\<close> of the member functions is written \<open>uid\<close> and the parameter \<^verbatim>\<open>value\<close> is
  written \<open>val\<close>; the member function \<^verbatim>\<open>value\<close> is \<open>value_of\<close>, and the two overloads of
  \<^verbatim>\<open>add\<close> and of \<^verbatim>\<open>erase\<close> are \<open>add_id\<close>, \<open>add_kv\<close>, \<open>erase_id\<close> and \<open>erase_key\<close>.
\<close>

subsection \<open>std::map\<close>

text \<open>
  A \<^verbatim>\<open>std::map\<close> is the list of its (key, mapped value) pairs in iteration order,
  from \<^verbatim>\<open>begin()\<close> to \<^verbatim>\<open>end()\<close>. The container keeps that list strictly ascending
  in the keys; \<open>map_ok\<close> states it.
\<close>

type_synonym ('k, 'v) std_map = "('k \<times> 'v) list"

definition map_ok :: "('k::linorder, 'v) std_map \<Rightarrow> bool" where
  "map_ok ps = sorted_wrt (<) (map fst ps)"

text \<open>\<^verbatim>\<open>find\<close>: the mapped value of the element with key \<open>k\<close>, \<open>None\<close> for \<^verbatim>\<open>end()\<close>.\<close>

fun map_find :: "('k, 'v) std_map \<Rightarrow> 'k \<Rightarrow> 'v option" where
  "map_find [] k = None"
| "map_find (p # ps) k = (if fst p = k then Some (snd p) else map_find ps k)"

text \<open>\<^verbatim>\<open>contains\<close> (C++20).\<close>

definition map_contains :: "('k, 'v) std_map \<Rightarrow> 'k \<Rightarrow> bool" where
  "map_contains ps k = (map_find ps k \<noteq> None)"

text \<open>
  \<^verbatim>\<open>insert({k, v})\<close>: puts the pair at its place in the order when no element has the key
  and returns whether it did; an element that is already there keeps its value.
\<close>

fun map_insert :: "('k::linorder, 'v) std_map \<Rightarrow> 'k \<Rightarrow> 'v \<Rightarrow> ('k, 'v) std_map \<times> bool" where
  "map_insert [] k v = ([(k, v)], True)"
| "map_insert (p # ps) k v =
     (if k < fst p then ((k, v) # p # ps, True)
      else if fst p < k then (case map_insert ps k v of (qs, inserted) \<Rightarrow> (p # qs, inserted))
      else (p # ps, False))"

text \<open>\<^verbatim>\<open>m[k] = v\<close>: \<^verbatim>\<open>operator[]\<close> inserts the key when it is missing, the assignment
  then overwrites the mapped value.\<close>

fun map_subscript_assign :: "('k::linorder, 'v) std_map \<Rightarrow> 'k \<Rightarrow> 'v \<Rightarrow> ('k, 'v) std_map" where
  "map_subscript_assign [] k v = [(k, v)]"
| "map_subscript_assign (p # ps) k v =
     (if k < fst p then (k, v) # p # ps
      else if fst p < k then p # map_subscript_assign ps k v
      else (fst p, v) # ps)"

text \<open>\<^verbatim>\<open>erase(k)\<close>: removes the element with key \<open>k\<close>, if there is one.\<close>

fun map_erase :: "('k, 'v) std_map \<Rightarrow> 'k \<Rightarrow> ('k, 'v) std_map" where
  "map_erase [] k = []"
| "map_erase (p # ps) k = (if fst p = k then ps else p # map_erase ps k)"

subsection \<open>The state of a Metadata object\<close>

text \<open>
  \<^verbatim>\<open>DataType\<close> is the map of key/value pairs of one identifier. \<^verbatim>\<open>Data\<close> is a
  \<^verbatim>\<open>std::shared_ptr<DataType>\<close>: \<open>None\<close> is the null pointer, \<open>Some d\<close> a pointer to a map
  whose content is \<open>d\<close>. The only pointers the member functions store are the results of
  \<^verbatim>\<open>std::make_shared<DataType>()\<close> in \<^verbatim>\<open>add(id)\<close>, one per identifier, and no member function
  hands a pointer out or copies it to a second identifier; so no two identifiers share
  a pointee, and the pointee is kept in place of the pointer. A write through the pointer
  stored at an identifier (\<open>pointee_store\<close>) rewrites the map kept there.
\<close>

type_synonym DataType = "(string, string) std_map"
type_synonym Data = "DataType option"
type_synonym MetadataMap = "(string, Data) std_map"

record Metadata =
  metadata :: MetadataMap

fun pointee_store :: "MetadataMap \<Rightarrow> string \<Rightarrow> DataType \<Rightarrow> MetadataMap" where
  "pointee_store [] uid d = []"
| "pointee_store (p # ps) uid d =
     (if fst p = uid then (fst p, Some d) # ps else p # pointee_store ps uid d)"

text \<open>\<^verbatim>\<open>Metadata() = default\<close>: the map is empty.\<close>

definition Metadata_init :: Metadata where
  "Metadata_init = \<lparr>metadata = []\<rparr>"

subsection \<open>Failures\<close>

text \<open>
  What a member function can end with instead of returning. The class throws
  \<^verbatim>\<open>std::runtime_error\<close> with a formatted message; each message is a constructor that
  carries the message's arguments in the order of the \<^verbatim>\<open>std::format\<close> call.
  \<^item> \<open>IdAlreadyExists id\<close>: \<^verbatim>\<open>'{}' already exists in metadata\<close>, from \<^verbatim>\<open>add(id)\<close>;
  \<^item> \<open>KeyAlreadyExists key id\<close>: \<^verbatim>\<open>'{}' already exists in the unique id '{}'\<close>, from
    \<^verbatim>\<open>add(id, key, value)\<close>;
  \<^item> \<open>UniqueIdDoesNotExist id\<close>: \<^verbatim>\<open>Unique ID '{}' does not exist\<close>, from \<^verbatim>\<open>keys\<close> and from
    the handler at the end of \<^verbatim>\<open>add(id, key, value)\<close>;
  \<^item> \<open>KeyOrIdDoNotExist key id\<close>: \<^verbatim>\<open>Key '{}' or unique ID '{}' do not exist\<close>, from \<^verbatim>\<open>value\<close>;
  \<^item> \<open>DeletedBeforeAccess id key\<close>: the \<^verbatim>\<open>std::string\<close> thrown by the handler of \<^verbatim>\<open>value\<close>;
  \<^item> \<open>OutOfRange\<close>: \<^verbatim>\<open>std::out_of_range\<close> of \<^verbatim>\<open>std::map::at\<close>, where no handler encloses it;
  \<^item> \<open>NullDereference\<close>: \<^verbatim>\<open>operator->\<close> or \<^verbatim>\<open>operator*\<close> on a null \<^verbatim>\<open>shared_ptr\<close>, which
    C++ leaves undefined;
  \<^item> \<open>FormatError\<close>: the archive rejects its input.
  The first two are the failures the specification calls AlreadyExists, the next two the
  ones it calls NotFound.
\<close>

datatype error =
    IdAlreadyExists string
  | KeyAlreadyExists string string
  | UniqueIdDoesNotExist string
  | KeyOrIdDoNotExist string string
  | DeletedBeforeAccess string string
  | OutOfRange
  | NullDereference
  | FormatError

type_synonym 'a result = "error + 'a"

subsection \<open>Member functions\<close>

text \<open>The private \<^verbatim>\<open>contains(id, lock)\<close>: both branches ask the map.\<close>

definition contains_lock :: "Metadata \<Rightarrow> string \<Rightarrow> bool \<Rightarrow> bool" where
  "contains_lock m uid lock =
     (if lock then map_contains (metadata m) uid else map_contains (metadata m) uid)"

definition contains :: "Metadata \<Rightarrow> string \<Rightarrow> bool" where
  "contains m uid = contains_lock m uid True"

text \<open>
  \<^verbatim>\<open>idContains\<close>: \<^verbatim>\<open>contains(id, false) && metadata.at(id)->contains(key)\<close>. The right
  operand runs only when the identifier is there.
\<close>

definition idContains :: "Metadata \<Rightarrow> string \<Rightarrow> string \<Rightarrow> bool result" where
  "idContains m uid key =
     (if \<not> contains_lock m uid False then Inr False
      else (case map_find (metadata m) uid of
              None \<Rightarrow> Inl OutOfRange
            | Some None \<Rightarrow> Inl NullDereference
            | Some (Some d) \<Rightarrow> Inr (map_contains d key)))"

text \<open>\<^verbatim>\<open>add(id)\<close>: an empty map at a new identifier.\<close>

definition add_id :: "Metadata \<Rightarrow> string \<Rightarrow> unit result \<times> Metadata" where
  "add_id m uid =
     (if contains_lock m uid False then (Inl (IdAlreadyExists uid), m)
      else (Inr (), m\<lparr>metadata := fst (map_insert (metadata m) uid (Some []))\<rparr>))"

text \<open>
  \<^verbatim>\<open>add(id, key, value)\<close>. The \<^verbatim>\<open>try\<close> block at the end catches every
  \<^verbatim>\<open>std::exception\<close>: the \<^verbatim>\<open>std::out_of_range\<close> of \<^verbatim>\<open>at(id)\<close> and the
  \<^verbatim>\<open>std::runtime_error\<close> thrown inside the block when \<^verbatim>\<open>insert\<close> reports no success both
  leave as \<open>UniqueIdDoesNotExist\<close>.
\<close>

definition add_kv :: "Metadata \<Rightarrow> string \<Rightarrow> string \<Rightarrow> string \<Rightarrow> unit result \<times> Metadata" where
  "add_kv m uid key val =
     (case idContains m uid key of
        Inl e \<Rightarrow> (Inl e, m)
      | Inr True \<Rightarrow> (Inl (KeyAlreadyExists key uid), m)
      | Inr False \<Rightarrow>
          (case (if \<not> contains m uid then add_id m uid else (Inr (), m)) of
             (Inl e, m1) \<Rightarrow> (Inl e, m1)
           | (Inr _, m1) \<Rightarrow>
               (case map_find (metadata m1) uid of
                  None \<Rightarrow> (Inl (UniqueIdDoesNotExist uid), m1)
                | Some None \<Rightarrow> (Inl NullDereference, m1)
                | Some (Some d) \<Rightarrow>
                    (case map_insert d key val of
                       (d', success) \<Rightarrow>
                         if \<not> success then (Inl (UniqueIdDoesNotExist uid), m1)
                         else (Inr (), m1\<lparr>metadata := pointee_store (metadata m1) uid d'\<rparr>)))))"

text \<open>\<^verbatim>\<open>ids\<close>: the loop pushes the key of every element, from \<^verbatim>\<open>begin()\<close> on.\<close>

fun push_back_firsts :: "('k, 'v) std_map \<Rightarrow> 'k list \<Rightarrow> 'k list" where
  "push_back_firsts [] acc = acc"
| "push_back_firsts (p # ps) acc = push_back_firsts ps (acc @ [fst p])"

definition ids :: "Metadata \<Rightarrow> string list" where
  "ids m = push_back_firsts (metadata m) []"

text \<open>\<^verbatim>\<open>keys(id)\<close>: the same loop over the map of one identifier.\<close>

definition keys :: "Metadata \<Rightarrow> string \<Rightarrow> string list result" where
  "keys m uid =
     (if \<not> contains_lock m uid False then Inl (UniqueIdDoesNotExist uid)
      else (case map_find (metadata m) uid of
              None \<Rightarrow> Inl OutOfRange
            | Some None \<Rightarrow> Inl NullDereference
            | Some (Some d) \<Rightarrow> Inr (push_back_firsts d [])))"

text \<open>
  \<^verbatim>\<open>value(id, key)\<close>. Inside the \<^verbatim>\<open>try\<close> block both \<^verbatim>\<open>at\<close> calls can throw
  \<^verbatim>\<open>std::out_of_range\<close>; the handler throws the string.
\<close>

definition value_of :: "Metadata \<Rightarrow> string \<Rightarrow> string \<Rightarrow> string result" where
  "value_of m uid key =
     (case idContains m uid key of
        Inl e \<Rightarrow> Inl e
      | Inr False \<Rightarrow> Inl (KeyOrIdDoNotExist key uid)
      | Inr True \<Rightarrow>
          (case map_find (metadata m) uid of
             None \<Rightarrow> Inl (DeletedBeforeAccess uid key)
           | Some None \<Rightarrow> Inl NullDereference
           | Some (Some d) \<Rightarrow>
               (case map_find d key of
                  None \<Rightarrow> Inl (DeletedBeforeAccess uid key)
                | Some v \<Rightarrow> Inr v)))"

text \<open>\<^verbatim>\<open>erase(id)\<close> has no failing path.\<close>

definition erase_id :: "Metadata \<Rightarrow> string \<Rightarrow> unit result \<times> Metadata" where
  "erase_id m uid = (Inr (), m\<lparr>metadata := map_erase (metadata m) uid\<rparr>)"

text \<open>\<^verbatim>\<open>erase(id, key)\<close>.\<close>

definition erase_key :: "Metadata \<Rightarrow> string \<Rightarrow> string \<Rightarrow> unit result \<times> Metadata" where
  "erase_key m uid key =
     (if contains_lock m uid False then
        (case map_find (metadata m) uid of
           None \<Rightarrow> (Inl OutOfRange, m)
         | Some None \<Rightarrow> (Inl NullDereference, m)
         | Some (Some d) \<Rightarrow>
             (Inr (), m\<lparr>metadata := pointee_store (metadata m) uid (map_erase d key)\<rparr>))
      else (Inr (), m))"

text \<open>\<^verbatim>\<open>update(id, key, value)\<close>.\<close>

definition update :: "Metadata \<Rightarrow> string \<Rightarrow> string \<Rightarrow> string \<Rightarrow> unit result \<times> Metadata" where
  "update m uid key val =
     (case (if \<not> contains m uid then add_id m uid else (Inr (), m)) of
        (Inl e, m1) \<Rightarrow> (Inl e, m1)
      | (Inr _, m1) \<Rightarrow>
          (case map_find (metadata m1) uid of
             None \<Rightarrow> (Inl OutOfRange, m1)
           | Some None \<Rightarrow> (Inl NullDereference, m1)
           | Some (Some d) \<Rightarrow>
               (Inr (), m1\<lparr>metadata :=
                  pointee_store (metadata m1) uid (map_subscript_assign d key val)\<rparr>)))"

subsection \<open>Serialisation\<close>

text \<open>
  \<^verbatim>\<open>serialize\<close> hands the whole map, and nothing else, to the archive; \<^verbatim>\<open>toJson\<close> and
  \<^verbatim>\<open>fromJson\<close> run it with the JSON output archive and the JSON input archive of the
  cereal library. The library is not part of the repository, so what the archives do is
  described here as the specification describes the codec. The document is kept as a
  tree: the text that the library prints the tree to and parses it from is not modelled.
\<close>

text \<open>
  Modelled from the spec: the document of the archives, which are cereal's and not in the
  repository; a structured document of the shape
  \<^verbatim>\<open>{ identifier: { key: value, ... }, ... }\<close>.
\<close>

datatype json = JNull | JString string | JObject "(string \<times> json) list"

text \<open>
  Modelled from the spec: the output archive on a \<^verbatim>\<open>DataType\<close>, cereal's and not in the
  repository. One field per key, in iteration order, the value as a string.
\<close>

definition save_DataType :: "DataType \<Rightarrow> json" where
  "save_DataType d = JObject (map (\<lambda>p. (fst p, JString (snd p))) d)"

text \<open>
  Modelled from the spec: the output archive on a \<^verbatim>\<open>Data\<close> pointer, cereal's and not in the
  repository. The specification has no null Entry; a null pointer is written as JSON null.
\<close>

definition save_Data :: "Data \<Rightarrow> json" where
  "save_Data ptr = (case ptr of None \<Rightarrow> JNull | Some d \<Rightarrow> save_DataType d)"

text \<open>
  Modelled from the spec: the output archive on the \<^verbatim>\<open>MetadataMap\<close>, cereal's and not in
  the repository. One field per identifier, in iteration order.
\<close>

definition save_MetadataMap :: "MetadataMap \<Rightarrow> json" where
  "save_MetadataMap mm = JObject (map (\<lambda>p. (fst p, save_Data (snd p))) mm)"

text \<open>
  Modelled from the spec: the input archive on the fields of one Entry, cereal's and not
  in the repository. A field whose value is not a string is of the wrong shape and fails
  with FormatError; the others are inserted in document order.
\<close>

fun load_pairs :: "(string \<times> json) list \<Rightarrow> DataType \<Rightarrow> DataType result" where
  "load_pairs [] d = Inr d"
| "load_pairs (f # fs) d =
     (case snd f of
        JString v \<Rightarrow> load_pairs fs (fst (map_insert d (fst f) v))
      | _ \<Rightarrow> Inl FormatError)"

text \<open>
  Modelled from the spec: the input archive on one Entry, cereal's and not in the
  repository. Anything but an object is of the wrong shape; the map is built from empty.
\<close>

definition load_DataType :: "json \<Rightarrow> DataType result" where
  "load_DataType j = (case j of JObject fs \<Rightarrow> load_pairs fs [] | _ \<Rightarrow> Inl FormatError)"

text \<open>
  Modelled from the spec: the input archive on the fields of the store, cereal's and not
  in the repository. Every identifier gets a pointer to the Entry read for it; the first
  Entry that fails makes the whole decode fail.
\<close>

fun load_entries :: "(string \<times> json) list \<Rightarrow> MetadataMap \<Rightarrow> MetadataMap result" where
  "load_entries [] mm = Inr mm"
| "load_entries (f # fs) mm =
     (case load_DataType (snd f) of
        Inl e \<Rightarrow> Inl e
      | Inr d \<Rightarrow> load_entries fs (fst (map_insert mm (fst f) (Some d))))"

text \<open>
  Modelled from the spec: the input archive on the \<^verbatim>\<open>MetadataMap\<close>, cereal's and not in the
  repository. Anything but an object is of the wrong shape; the map is built from empty,
  so that decoding replaces the content.
\<close>

definition load_MetadataMap :: "json \<Rightarrow> MetadataMap result" where
  "load_MetadataMap j = (case j of JObject fs \<Rightarrow> load_entries fs [] | _ \<Rightarrow> Inl FormatError)"

text \<open>
  \<^verbatim>\<open>serialize(archive)\<close> is \<^verbatim>\<open>archive(metadata)\<close>: with an output archive it writes the
  map, with an input archive it replaces the map by what the archive reads. The
  specification does not say what a failing decode leaves in the store; here it leaves
  the store as it was.
\<close>

definition serialize_save :: "Metadata \<Rightarrow> json" where
  "serialize_save m = save_MetadataMap (metadata m)"

definition serialize_load :: "Metadata \<Rightarrow> json \<Rightarrow> unit result \<times> Metadata" where
  "serialize_load m j =
     (case load_MetadataMap j of
        Inl e \<Rightarrow> (Inl e, m)
      | Inr mm \<Rightarrow> (Inr (), m\<lparr>metadata := mm\<rparr>))"

text \<open>
  \<^verbatim>\<open>toJson\<close> archives the object under the name of its variable,
  \<^verbatim>\<open>archive(CEREAL_NVP(m))\<close>. \<^verbatim>\<open>fromJson\<close> reads without a name, \<^verbatim>\<open>archive(m)\<close>: it
  takes the first field of the document, whatever it is called.
\<close>

definition toJson :: "Metadata \<Rightarrow> json" where
  "toJson m = JObject [(''m'', serialize_save m)]"

definition fromJson :: "Metadata \<Rightarrow> json \<Rightarrow> unit result \<times> Metadata" where
  "fromJson m data =
     (case data of
        JObject (f # fs) \<Rightarrow> serialize_load m (snd f)
      | _ \<Rightarrow> (Inl FormatError, m))"

subsection \<open>Sequences of calls\<close>

text \<open>
  The calls that can change a store, and a store driven through a sequence of them. A
  call that throws leaves the store as the call left it at the throw, and the caller
  goes on with that store.
\<close>

datatype call =
    Add_id string
  | Add_kv string string string
  | Update string string string
  | Erase_id string
  | Erase_key string string
  | FromJson json

fun apply_call :: "Metadata \<Rightarrow> call \<Rightarrow> unit result \<times> Metadata" where
  "apply_call m (Add_id uid) = add_id m uid"
| "apply_call m (Add_kv uid key val) = add_kv m uid key val"
| "apply_call m (Update uid key val) = update m uid key val"
| "apply_call m (Erase_id uid) = erase_id m uid"
| "apply_call m (Erase_key uid key) = erase_key m uid key"
| "apply_call m (FromJson data) = fromJson m data"

fun run :: "Metadata \<Rightarrow> call list \<Rightarrow> Metadata" where
  "run m [] = m"
| "run m (c # cs) = run (snd (apply_call m c)) cs"

subsection \<open>Invariants\<close>

text \<open>No identifier of the store holds a null pointer.\<close>

definition nonnull :: "Metadata \<Rightarrow> bool" where
  "nonnull m = list_all (\<lambda>p. snd p \<noteq> None) (metadata m)"

text \<open>
  The states a \<^verbatim>\<open>Metadata\<close> object can be in: both levels of maps are ordered as
  \<^verbatim>\<open>std::map\<close> keeps them, and no pointer is null.
\<close>

definition entry_ok :: "Data \<Rightarrow> bool" where
  "entry_ok ptr = (case ptr of None \<Rightarrow> False | Some d \<Rightarrow> map_ok d)"

definition store_inv :: "Metadata \<Rightarrow> bool" where
  "store_inv m = (map_ok (metadata m) \<and> list_all (\<lambda>p. entry_ok (snd p)) (metadata m))"

text \<open>
  The store has an element for the identifier whose pointer is not null and whose map has
  an element for the key: the content of the store that \<^verbatim>\<open>idContains\<close>, \<^verbatim>\<open>keys\<close> and
  \<^verbatim>\<open>value\<close> are compared with, stated on the elements and not through \<^verbatim>\<open>find\<close>.
\<close>

definition has_key :: "Metadata \<Rightarrow> string \<Rightarrow> string \<Rightarrow> bool" where
  "has_key m uid key =
     list_ex (\<lambda>p. fst p = uid \<and>
               (case snd p of None \<Rightarrow> False | Some d \<Rightarrow> list_ex (\<lambda>q. fst q = key) d))
       (metadata m)"

section \<open>Properties of the std::map model\<close>

lemma push_back_firsts_eq: "push_back_firsts ps acc = acc @ map fst ps"
  by (induction ps arbitrary: acc) simp_all

lemma map_find_None_iff: "map_find ps k = None \<longleftrightarrow> k \<notin> fst ` set ps"
  by (induction ps) auto

lemma map_find_member: "map_find ps k = Some v \<Longrightarrow> (k, v) \<in> set ps"
  by (induction ps) (auto split: if_splits)

lemma map_ok_member_find: "map_ok ps \<Longrightarrow> (k, v) \<in> set ps \<Longrightarrow> map_find ps k = Some v"
  by (induction ps) (auto simp: map_ok_def)

lemma list_ex_first: "list_ex (\<lambda>q. fst q = k) ps \<longleftrightarrow> map_find ps k \<noteq> None"
  by (induction ps) auto

lemma map_contains_iff: "map_contains ps k \<longleftrightarrow> k \<in> fst ` set ps"
  by (simp add: map_contains_def map_find_None_iff)

lemma map_find_insert:
  "map_find (fst (map_insert ps k v)) k' =
     (if k' = k \<and> snd (map_insert ps k v) then Some v else map_find ps k')"
  by (induction ps) (auto split: prod.splits)

lemma map_insert_refused: "\<not> snd (map_insert ps k v) \<Longrightarrow> map_contains ps k"
  by (induction ps) (auto simp: map_contains_def split: prod.splits if_splits)

lemma map_insert_absent: "\<not> map_contains ps k \<Longrightarrow> snd (map_insert ps k v)"
  by (induction ps) (auto simp: map_contains_def split: prod.splits if_splits)

lemma map_find_Some_iff: "(\<exists>v. map_find ps k = Some v) \<longleftrightarrow> k \<in> fst ` set ps"
  using map_find_None_iff [of ps k] by auto

lemma firsts_insert:
  "fst ` set (fst (map_insert ps k v)) = insert k (fst ` set ps)"
proof (rule set_eqI)
  fix x
  have "(\<exists>w. map_find (fst (map_insert ps k v)) x = Some w) \<longleftrightarrow>
        x = k \<or> (\<exists>w. map_find ps x = Some w)"
    using map_insert_refused [of ps k v] by (auto simp: map_find_insert map_contains_def)
  then show "x \<in> fst ` set (fst (map_insert ps k v)) \<longleftrightarrow> x \<in> insert k (fst ` set ps)"
    by (simp add: map_find_Some_iff)
qed

lemma map_ok_insert: "map_ok ps \<Longrightarrow> map_ok (fst (map_insert ps k v))"
proof (induction ps)
  case Nil
  show ?case by (simp add: map_ok_def)
next
  case (Cons p ps)
  have tl: "map_ok ps" using Cons.prems by (simp add: map_ok_def)
  have hd: "\<forall>x\<in>fst ` set ps. fst p < x" using Cons.prems by (simp add: map_ok_def)
  show ?case
  proof (cases "k < fst p")
    case True
    then have "\<forall>x\<in>fst ` set ps. k < x" using hd by (meson order.strict_trans)
    then show ?thesis using True hd tl by (simp add: map_ok_def)
  next
    case False
    show ?thesis
    proof (cases "fst p < k")
      case True
      obtain qs b where q: "map_insert ps k v = (qs, b)" by (cases "map_insert ps k v")
      have "map_ok qs" using Cons.IH [OF tl] q by simp
      moreover have "fst ` set qs = insert k (fst ` set ps)"
        using firsts_insert [of ps k v] q by simp
      ultimately show ?thesis using True False hd q by (simp add: map_ok_def)
    next
      case False
      with \<open>\<not> k < fst p\<close> Cons.prems show ?thesis by simp
    qed
  qed
qed

lemma map_find_subscript_assign:
  "map_find (map_subscript_assign ps k v) k' = (if k' = k then Some v else map_find ps k')"
  by (induction ps) auto

lemma firsts_subscript_assign:
  "fst ` set (map_subscript_assign ps k v) = insert k (fst ` set ps)"
proof (rule set_eqI)
  fix x
  have "(\<exists>w. map_find (map_subscript_assign ps k v) x = Some w) \<longleftrightarrow>
        x = k \<or> (\<exists>w. map_find ps x = Some w)"
    by (simp add: map_find_subscript_assign)
  then show "x \<in> fst ` set (map_subscript_assign ps k v) \<longleftrightarrow> x \<in> insert k (fst ` set ps)"
    by (simp add: map_find_Some_iff)
qed

lemma map_ok_subscript_assign: "map_ok ps \<Longrightarrow> map_ok (map_subscript_assign ps k v)"
proof (induction ps)
  case Nil
  show ?case by (simp add: map_ok_def)
next
  case (Cons p ps)
  have tl: "map_ok ps" using Cons.prems by (simp add: map_ok_def)
  have hd: "\<forall>x\<in>fst ` set ps. fst p < x" using Cons.prems by (simp add: map_ok_def)
  have ih: "map_ok (map_subscript_assign ps k v)" by (rule Cons.IH [OF tl])
  show ?case
  proof (cases "k < fst p")
    case True
    then have "\<forall>x\<in>fst ` set ps. k < x" using hd by (meson order.strict_trans)
    then show ?thesis using True hd tl by (simp add: map_ok_def)
  next
    case False
    then show ?thesis using ih hd tl firsts_subscript_assign [of ps k v]
      by (auto simp: map_ok_def)
  qed
qed

lemma firsts_erase_subset: "x \<in> fst ` set (map_erase ps k) \<Longrightarrow> x \<in> fst ` set ps"
  by (induction ps) (auto split: if_splits)

lemma map_ok_erase: "map_ok ps \<Longrightarrow> map_ok (map_erase ps k)"
proof (induction ps)
  case Nil
  show ?case by (simp add: map_ok_def)
next
  case (Cons p ps)
  have tl: "map_ok ps" using Cons.prems by (simp add: map_ok_def)
  have hd: "\<forall>x\<in>fst ` set ps. fst p < x" using Cons.prems by (simp add: map_ok_def)
  then have "\<forall>x\<in>fst ` set (map_erase ps k). fst p < x"
    using firsts_erase_subset [of _ ps k] by blast
  then show ?case using Cons.IH [OF tl] tl by (simp add: map_ok_def)
qed

lemma map_erase_absent: "\<not> map_contains ps k \<Longrightarrow> map_erase ps k = ps"
  by (induction ps) (auto simp: map_contains_def)

lemma map_ok_head_absent: "map_ok (p # ps) \<Longrightarrow> \<not> map_contains ps (fst p)"
  by (auto simp: map_ok_def map_contains_iff)

lemma map_find_erase:
  "map_ok ps \<Longrightarrow> map_find (map_erase ps k) k' = (if k' = k then None else map_find ps k')"
proof (induction ps)
  case Nil
  show ?case by simp
next
  case (Cons p ps)
  have tl: "map_ok ps" using Cons.prems by (simp add: map_ok_def)
  have "map_find ps (fst p) = None"
    using map_ok_head_absent [OF Cons.prems] by (simp add: map_contains_def)
  then show ?case using Cons.IH [OF tl] by auto
qed

lemma map_erase_twice: "map_ok ps \<Longrightarrow> map_erase (map_erase ps k) k = map_erase ps k"
  by (rule map_erase_absent) (simp add: map_contains_def map_find_erase)

lemma firsts_pointee_store: "map fst (pointee_store ps uid d) = map fst ps"
  by (induction ps) auto

lemma map_ok_pointee_store: "map_ok ps \<Longrightarrow> map_ok (pointee_store ps uid d)"
  by (simp add: map_ok_def firsts_pointee_store)

lemma map_find_pointee_store:
  "map_find (pointee_store ps uid d) k =
     (if k = uid \<and> map_contains ps uid then Some (Some d) else map_find ps k)"
  by (induction ps) (auto simp: map_contains_def)

lemma pointee_store_twice:
  "pointee_store (pointee_store ps uid d) uid d' = pointee_store ps uid d'"
  by (induction ps) auto

section \<open>Properties of the member functions\<close>

subsection \<open>add(id)\<close>

lemma contains_lock_eq [simp]: "contains_lock m uid b = map_contains (metadata m) uid"
  by (simp add: contains_lock_def)

lemma contains_eq: "contains m uid = map_contains (metadata m) uid"
  by (simp add: contains_def)

lemma map_contains_insert: "map_contains (fst (map_insert ps k v)) k"
  using map_insert_refused [of ps k v] by (auto simp: map_contains_def map_find_insert)

lemma map_contains_pointee_store [simp]:
  "map_contains (pointee_store ps uid d) k = map_contains ps k"
  by (induction ps) (auto simp: map_contains_def)

lemma add_id_contains: "contains (snd (add_id m uid)) uid"
  by (simp add: add_id_def contains_eq map_contains_insert)

text \<open>
  Claim C3. \<^verbatim>\<open>add(id)\<close> on a store that has the identifier throws the
  already-exists error and leaves the store as it was. In particular, whatever the store,
  a second \<^verbatim>\<open>add(id)\<close> right after a first one throws it, and the store after the
  second call is the store the first call left.
\<close>

theorem add_id_twice:
  "(uid \<in> fst ` set (metadata m) \<longrightarrow> add_id m uid = (Inl (IdAlreadyExists uid), m)) \<and>
   add_id (snd (add_id m uid)) uid = (Inl (IdAlreadyExists uid), snd (add_id m uid))"
proof
  show "uid \<in> fst ` set (metadata m) \<longrightarrow> add_id m uid = (Inl (IdAlreadyExists uid), m)"
    by (simp add: add_id_def map_contains_iff)
  have "contains (snd (add_id m uid)) uid" by (rule add_id_contains)
  then show "add_id (snd (add_id m uid)) uid = (Inl (IdAlreadyExists uid), snd (add_id m uid))"
    by (simp add: add_id_def contains_eq)
qed

theorem add_id_twice_witness:
  "''Foo'' \<in> fst ` set (metadata \<lparr>metadata = [(''Foo'', Some [])]\<rparr>) \<and>
   add_id \<lparr>metadata = [(''Foo'', Some [])]\<rparr> ''Foo'' =
     (Inl (IdAlreadyExists ''Foo''), \<lparr>metadata = [(''Foo'', Some [])]\<rparr>)"
proof -
  have h: "''Foo'' \<in> fst ` set (metadata \<lparr>metadata = [(''Foo'', Some [])]\<rparr>)"
    by simp
  from add_id_twice [where m = "\<lparr>metadata = [(''Foo'', Some [])]\<rparr>" and uid = "''Foo''"] h
  have "add_id \<lparr>metadata = [(''Foo'', Some [])]\<rparr> ''Foo'' =
     (Inl (IdAlreadyExists ''Foo''), \<lparr>metadata = [(''Foo'', Some [])]\<rparr>)"
    by blast
  with h show ?thesis by blast
qed

subsection \<open>add(id, key, value)\<close>

lemma map_find_contains: "map_find ps k = Some v \<Longrightarrow> map_contains ps k"
  by (simp add: map_contains_def)

text \<open>What a successful \<^verbatim>\<open>add(id, key, value)\<close> leaves in the store.\<close>

lemma add_kv_success:
  assumes "add_kv m uid key v = (Inr (), m1)"
  shows "\<exists>d. map_find (metadata m1) uid = Some (Some d) \<and> map_find d key = Some v"
proof -
  from assms have nc: "idContains m uid key = Inr False"
    by (auto simp: add_kv_def split: sum.splits bool.splits)
  define m0 where "m0 = (if \<not> contains m uid then snd (add_id m uid) else m)"
  have c0: "map_contains (metadata m0) uid"
    using add_id_contains [of m uid] by (auto simp: m0_def contains_eq)
  from assms nc obtain d d' where
    f: "map_find (metadata m0) uid = Some (Some d)" and
    i: "map_insert d key v = (d', True)" and
    r: "m1 = m0\<lparr>metadata := pointee_store (metadata m0) uid d'\<rparr>"
    by (auto simp: add_kv_def m0_def add_id_def contains_eq
        split: sum.splits bool.splits option.splits prod.splits if_splits)
  have "map_find d' key = Some v" using map_find_insert [of d key v key] i by simp
  moreover have "map_find (metadata m1) uid = Some (Some d')"
    using c0 by (simp add: r map_find_pointee_store)
  ultimately show ?thesis by blast
qed

lemma idContains_found:
  "map_find (metadata m) uid = Some (Some d) \<Longrightarrow> idContains m uid key = Inr (map_contains d key)"
  by (simp add: idContains_def map_contains_def)

lemma value_of_found:
  "map_find (metadata m) uid = Some (Some d) \<Longrightarrow> map_find d key = Some v \<Longrightarrow>
   value_of m uid key = Inr v"
  by (simp add: value_of_def idContains_found map_contains_def)

text \<open>
  Claim C2. When \<^verbatim>\<open>add(id, key, v)\<close> has succeeded, \<^verbatim>\<open>add(id, key, v2)\<close> on the
  resulting store throws the already-exists error for the key, the store is unchanged by
  the failing call, and \<^verbatim>\<open>value(id, key)\<close> afterwards still returns \<open>v\<close>.
\<close>

theorem add_kv_twice:
  assumes "add_kv m uid key v = (Inr (), m1)"
  shows "add_kv m1 uid key v2 = (Inl (KeyAlreadyExists key uid), m1) \<and>
         value_of (snd (add_kv m1 uid key v2)) uid key = Inr v"
proof -
  from add_kv_success [OF assms] obtain d where
    d: "map_find (metadata m1) uid = Some (Some d)" "map_find d key = Some v" by blast
  have "idContains m1 uid key = Inr True"
    using d by (simp add: idContains_found map_contains_def)
  then have 1: "add_kv m1 uid key v2 = (Inl (KeyAlreadyExists key uid), m1)"
    by (simp add: add_kv_def)
  moreover have "value_of m1 uid key = Inr v" using d by (rule value_of_found)
  ultimately show ?thesis by simp
qed

theorem add_kv_twice_witness:
  "add_kv Metadata_init ''Foo'' ''Bar'' ''Baz'' =
     (Inr (), \<lparr>metadata = [(''Foo'', Some [(''Bar'', ''Baz'')])]\<rparr>) \<and>
   add_kv \<lparr>metadata = [(''Foo'', Some [(''Bar'', ''Baz'')])]\<rparr> ''Foo'' ''Bar'' ''Quux'' =
     (Inl (KeyAlreadyExists ''Bar'' ''Foo''), \<lparr>metadata = [(''Foo'', Some [(''Bar'', ''Baz'')])]\<rparr>) \<and>
   value_of (snd (add_kv \<lparr>metadata = [(''Foo'', Some [(''Bar'', ''Baz'')])]\<rparr> ''Foo'' ''Bar'' ''Quux''))
     ''Foo'' ''Bar'' = Inr ''Baz''"
proof -
  have h: "add_kv Metadata_init ''Foo'' ''Bar'' ''Baz'' =
     (Inr (), \<lparr>metadata = [(''Foo'', Some [(''Bar'', ''Baz'')])]\<rparr>)"
    by (simp add: add_kv_def idContains_def contains_def contains_lock_def map_contains_def
        Metadata_init_def add_id_def)
  show ?thesis by (rule conjI [OF h add_kv_twice [OF h]])
qed

subsection \<open>update\<close>

lemma nonnull_find: "nonnull m \<Longrightarrow> map_find (metadata m) uid \<noteq> Some None"
proof -
  have "list_all (\<lambda>p. snd p \<noteq> None) ps \<Longrightarrow> map_find ps uid \<noteq> Some None" for ps :: MetadataMap
    by (induction ps) auto
  then show "nonnull m \<Longrightarrow> map_find (metadata m) uid \<noteq> Some None"
    by (simp add: nonnull_def)
qed

lemma nonnull_contains:
  "nonnull m \<Longrightarrow> contains m uid \<Longrightarrow> \<exists>d. map_find (metadata m) uid = Some (Some d)"
  using nonnull_find [of m uid] by (auto simp: contains_eq map_contains_def)

lemma list_all_insert:
  "list_all P ps \<Longrightarrow> P (k, v) \<Longrightarrow> list_all P (fst (map_insert ps k v))"
  by (induction ps) (auto split: prod.splits)

lemma list_all_erase: "list_all P ps \<Longrightarrow> list_all P (map_erase ps k)"
  by (induction ps) auto

lemma list_all_pointee_store:
  "list_all (\<lambda>p. Q (snd p)) ps \<Longrightarrow> Q (Some d) \<Longrightarrow>
   list_all (\<lambda>p. Q (snd p)) (pointee_store ps uid d)"
  by (induction ps) auto

lemma nonnull_add_id: "nonnull m \<Longrightarrow> nonnull (snd (add_id m uid))"
  by (simp add: add_id_def nonnull_def list_all_insert)

lemma nonnull_pointee_store:
  "nonnull m \<Longrightarrow> nonnull (m\<lparr>metadata := pointee_store (metadata m) uid d\<rparr>)"
  using list_all_pointee_store [of "\<lambda>x. x \<noteq> None" "metadata m" d uid]
  by (simp add: nonnull_def)

text \<open>The shape of the result of \<^verbatim>\<open>update\<close> on a store without null pointers.\<close>

lemma update_result:
  assumes "nonnull m"
  shows "\<exists>m0 d. map_find (metadata m0) uid = Some (Some d) \<and> nonnull m0 \<and>
           update m uid key v =
             (Inr (), m0\<lparr>metadata := pointee_store (metadata m0) uid (map_subscript_assign d key v)\<rparr>)"
proof (cases "contains m uid")
  case True
  from nonnull_contains [OF assms True] obtain d where
    d: "map_find (metadata m) uid = Some (Some d)" by blast
  have "update m uid key v =
     (Inr (), m\<lparr>metadata := pointee_store (metadata m) uid (map_subscript_assign d key v)\<rparr>)"
    using True d by (simp add: update_def)
  with d assms show ?thesis by blast
next
  case False
  define m0 where "m0 = snd (add_id m uid)"
  have a: "add_id m uid = (Inr (), m0)"
    using False by (simp add: m0_def add_id_def contains_eq)
  have n0: "nonnull m0" unfolding m0_def using assms by (rule nonnull_add_id)
  have "contains m0 uid" unfolding m0_def by (rule add_id_contains)
  from nonnull_contains [OF n0 this] obtain d where
    d: "map_find (metadata m0) uid = Some (Some d)" by blast
  have "update m uid key v =
     (Inr (), m0\<lparr>metadata := pointee_store (metadata m0) uid (map_subscript_assign d key v)\<rparr>)"
    using False a d by (simp add: update_def)
  with d n0 show ?thesis by blast
qed

lemma update_ok:
  assumes "nonnull m"
  shows "\<exists>m1. update m uid key v = (Inr (), m1) \<and> nonnull m1 \<and> contains m1 uid \<and>
           value_of m1 uid key = Inr v"
proof -
  from update_result [OF assms, of uid key v] obtain m0 d where
    d: "map_find (metadata m0) uid = Some (Some d)" and n0: "nonnull m0" and
    u: "update m uid key v =
         (Inr (), m0\<lparr>metadata := pointee_store (metadata m0) uid (map_subscript_assign d key v)\<rparr>)"
    by blast
  let ?m1 = "m0\<lparr>metadata := pointee_store (metadata m0) uid (map_subscript_assign d key v)\<rparr>"
  have c: "map_contains (metadata m0) uid" using d by (rule map_find_contains)
  have f: "map_find (metadata ?m1) uid = Some (Some (map_subscript_assign d key v))"
    using c by (simp add: map_find_pointee_store)
  have "value_of ?m1 uid key = Inr v"
    by (rule value_of_found [OF f]) (simp add: map_find_subscript_assign)
  moreover have "contains ?m1 uid" using c by (simp add: contains_eq)
  moreover have "nonnull ?m1" using n0 by (rule nonnull_pointee_store)
  ultimately show ?thesis using u by blast
qed

text \<open>
  Claim C4. On a store without null pointers, \<^verbatim>\<open>update(id, key, v1)\<close> returns without
  throwing, whatever the store holds for the identifier and the key, \<^verbatim>\<open>update(id, key, v2)\<close>
  on the result returns without throwing too, and \<^verbatim>\<open>value(id, key)\<close> then returns \<open>v2\<close>.
\<close>

theorem update_twice:
  assumes "nonnull m"
  shows "\<exists>m1 m2. update m uid key v1 = (Inr (), m1) \<and> update m1 uid key v2 = (Inr (), m2) \<and>
           value_of m2 uid key = Inr v2"
proof -
  from update_ok [OF assms, of uid key v1] obtain m1 where
    1: "update m uid key v1 = (Inr (), m1)" "nonnull m1" by blast
  from update_ok [OF 1(2), of uid key v2] obtain m2 where
    2: "update m1 uid key v2 = (Inr (), m2)" "value_of m2 uid key = Inr v2" by blast
  from 1 2 show ?thesis by blast
qed

theorem update_twice_witness:
  "nonnull \<lparr>metadata = [(''Foo'', Some [(''Bar'', ''Baz'')])]\<rparr> \<and>
   (\<exists>m1 m2. update \<lparr>metadata = [(''Foo'', Some [(''Bar'', ''Baz'')])]\<rparr> ''Foo'' ''Bar'' ''v1'' = (Inr (), m1) \<and>
      update m1 ''Foo'' ''Bar'' ''v2'' = (Inr (), m2) \<and> value_of m2 ''Foo'' ''Bar'' = Inr ''v2'')"
proof -
  have h: "nonnull \<lparr>metadata = [(''Foo'', Some [(''Bar'', ''Baz'')])]\<rparr>"
    by (simp add: nonnull_def)
  show ?thesis by (rule conjI [OF h update_twice [OF h]])
qed

subsection \<open>contains, idContains, keys and value\<close>

lemma contains_iff: "contains m uid \<longleftrightarrow> uid \<in> fst ` set (metadata m)"
  by (simp add: contains_eq map_contains_iff)

lemma idContains_absent: "\<not> contains m uid \<Longrightarrow> idContains m uid key = Inr False"
  by (simp add: idContains_def contains_eq)

lemma store_inv_find:
  assumes "store_inv m" and "map_find (metadata m) uid = Some ptr"
  shows "\<exists>d. ptr = Some d \<and> map_ok d"
proof -
  have "list_all (\<lambda>p. entry_ok (snd p)) ps \<Longrightarrow> map_find ps uid = Some ptr \<Longrightarrow> entry_ok ptr"
    for ps :: MetadataMap
    by (induction ps) (auto split: if_splits)
  then have "entry_ok ptr" using assms unfolding store_inv_def by blast
  then show ?thesis by (cases ptr) (simp_all add: entry_ok_def)
qed

lemma store_inv_nonnull: "store_inv m \<Longrightarrow> nonnull m"
proof -
  have "list_all (\<lambda>p. entry_ok (snd p)) ps \<Longrightarrow> list_all (\<lambda>p. snd p \<noteq> None) ps"
    for ps :: MetadataMap
    by (induction ps) (auto simp: entry_ok_def split: option.splits)
  then show "store_inv m \<Longrightarrow> nonnull m" by (simp add: store_inv_def nonnull_def)
qed

text \<open>
  On the states of the class, \<open>has_key\<close> is what the two \<^verbatim>\<open>find\<close> calls see: the keys of
  a map are distinct, so the element \<^verbatim>\<open>find\<close> returns is the only one with its key.
\<close>

lemma has_key_find:
  assumes "store_inv m"
  shows "has_key m uid key \<longleftrightarrow>
           (\<exists>d. map_find (metadata m) uid = Some (Some d) \<and> map_find d key \<noteq> None)"
proof
  assume "has_key m uid key"
  then obtain e d where e: "e \<in> set (metadata m)" "fst e = uid" "snd e = Some d" and
    k: "list_ex (\<lambda>q. fst q = key) d"
    by (auto simp: has_key_def list_ex_iff split: option.splits)
  have "e = (uid, Some d)" using e(2,3) by (simp add: prod_eq_iff)
  then have "(uid, Some d) \<in> set (metadata m)" using e(1) by simp
  moreover have "map_ok (metadata m)" using assms by (simp add: store_inv_def)
  ultimately have "map_find (metadata m) uid = Some (Some d)" by (simp add: map_ok_member_find)
  then show "\<exists>d. map_find (metadata m) uid = Some (Some d) \<and> map_find d key \<noteq> None"
    using k by (simp add: list_ex_first)
next
  assume "\<exists>d. map_find (metadata m) uid = Some (Some d) \<and> map_find d key \<noteq> None"
  then obtain d where d: "map_find (metadata m) uid = Some (Some d)" "map_find d key \<noteq> None"
    by blast
  have "list_ex (\<lambda>q. fst q = key) d" using d(2) by (simp add: list_ex_first)
  then have "\<exists>e\<in>set (metadata m). fst e = uid \<and>
      (case snd e of None \<Rightarrow> False | Some d \<Rightarrow> list_ex (\<lambda>q. fst q = key) d)"
    using map_find_member [OF d(1)] by (intro bexI [of _ "(uid, Some d)"]) simp_all
  then show "has_key m uid key" by (simp add: has_key_def list_ex_iff)
qed

lemma idContains_has_key:
  assumes "store_inv m"
  shows "idContains m uid key = Inr (has_key m uid key)"
  using nonnull_find [OF store_inv_nonnull [OF assms], of uid]
  by (auto simp: idContains_def has_key_find [OF assms] map_contains_def split: option.splits)

lemma value_of_iff: "(\<exists>v. value_of m uid key = Inr v) \<longleftrightarrow> idContains m uid key = Inr True"
  by (auto simp: value_of_def idContains_def map_contains_def
      split: sum.splits bool.splits option.splits if_splits)

lemma value_of_missing:
  "idContains m uid key = Inr False \<Longrightarrow> value_of m uid key = Inl (KeyOrIdDoNotExist key uid)"
  by (simp add: value_of_def)

text \<open>
  Claim C5. On every state of the class: for an identifier that is not in the store,
  \<^verbatim>\<open>contains\<close> returns false, \<^verbatim>\<open>keys\<close> throws the does-not-exist error and \<^verbatim>\<open>value\<close>
  throws the do-not-exist error for every key; \<^verbatim>\<open>value\<close> throws the same error when the
  identifier is there and its map lacks the key; \<^verbatim>\<open>keys\<close> returns exactly when the
  identifier is in the store, and \<^verbatim>\<open>value\<close> returns exactly when the identifier is in the
  store and its map has the key.
\<close>

theorem lookup_not_found:
  assumes "store_inv m"
  shows "(uid \<notin> fst ` set (metadata m) \<longrightarrow>
            \<not> contains m uid \<and> keys m uid = Inl (UniqueIdDoesNotExist uid) \<and>
            value_of m uid key = Inl (KeyOrIdDoNotExist key uid)) \<and>
         (uid \<in> fst ` set (metadata m) \<and> \<not> has_key m uid key \<longrightarrow>
            value_of m uid key = Inl (KeyOrIdDoNotExist key uid)) \<and>
         ((\<exists>ks. keys m uid = Inr ks) \<longleftrightarrow> uid \<in> fst ` set (metadata m)) \<and>
         ((\<exists>v. value_of m uid key = Inr v) \<longleftrightarrow> has_key m uid key)"
proof (intro conjI impI)
  assume a: "uid \<notin> fst ` set (metadata m)"
  then show "\<not> contains m uid" by (simp add: contains_iff)
  then show "keys m uid = Inl (UniqueIdDoesNotExist uid)" by (simp add: keys_def contains_eq)
  from \<open>\<not> contains m uid\<close> show "value_of m uid key = Inl (KeyOrIdDoNotExist key uid)"
    by (simp add: value_of_missing idContains_absent)
next
  assume "uid \<in> fst ` set (metadata m) \<and> \<not> has_key m uid key"
  then show "value_of m uid key = Inl (KeyOrIdDoNotExist key uid)"
    using assms by (simp add: value_of_missing idContains_has_key)
next
  show "(\<exists>ks. keys m uid = Inr ks) \<longleftrightarrow> uid \<in> fst ` set (metadata m)"
    using nonnull_contains [OF store_inv_nonnull [OF assms], of uid]
    by (auto simp: keys_def contains_eq simp flip: contains_iff)
next
  show "(\<exists>v. value_of m uid key = Inr v) \<longleftrightarrow> has_key m uid key"
    using assms by (simp add: value_of_iff idContains_has_key)
qed

theorem lookup_not_found_witness:
  "store_inv \<lparr>metadata = [(''Foo'', Some [(''Bar'', ''Baz'')])]\<rparr> \<and>
   ''Baz'' \<notin> fst ` set (metadata \<lparr>metadata = [(''Foo'', Some [(''Bar'', ''Baz'')])]\<rparr>) \<and>
   \<not> contains \<lparr>metadata = [(''Foo'', Some [(''Bar'', ''Baz'')])]\<rparr> ''Baz'' \<and>
   keys \<lparr>metadata = [(''Foo'', Some [(''Bar'', ''Baz'')])]\<rparr> ''Baz'' =
     Inl (UniqueIdDoesNotExist ''Baz'') \<and>
   value_of \<lparr>metadata = [(''Foo'', Some [(''Bar'', ''Baz'')])]\<rparr> ''Baz'' ''Bar'' =
     Inl (KeyOrIdDoNotExist ''Bar'' ''Baz'') \<and>
   ''Foo'' \<in> fst ` set (metadata \<lparr>metadata = [(''Foo'', Some [(''Bar'', ''Baz'')])]\<rparr>) \<and>
   \<not> has_key \<lparr>metadata = [(''Foo'', Some [(''Bar'', ''Baz'')])]\<rparr> ''Foo'' ''Quux'' \<and>
   value_of \<lparr>metadata = [(''Foo'', Some [(''Bar'', ''Baz'')])]\<rparr> ''Foo'' ''Quux'' =
     Inl (KeyOrIdDoNotExist ''Quux'' ''Foo'') \<and>
   has_key \<lparr>metadata = [(''Foo'', Some [(''Bar'', ''Baz'')])]\<rparr> ''Foo'' ''Bar'' \<and>
   (\<exists>ks. keys \<lparr>metadata = [(''Foo'', Some [(''Bar'', ''Baz'')])]\<rparr> ''Foo'' = Inr ks) \<and>
   (\<exists>v. value_of \<lparr>metadata = [(''Foo'', Some [(''Bar'', ''Baz'')])]\<rparr> ''Foo'' ''Bar'' = Inr v)"
proof -
  let ?M = "\<lparr>metadata = [(''Foo'', Some [(''Bar'', ''Baz'')])]\<rparr>"
  have n: "store_inv ?M" by (simp add: store_inv_def map_ok_def entry_ok_def)
  have a: "''Baz'' \<notin> fst ` set (metadata ?M)" by simp
  have p: "''Foo'' \<in> fst ` set (metadata ?M)" by simp
  have l: "\<not> has_key ?M ''Foo'' ''Quux''" by (simp add: has_key_def)
  have k: "has_key ?M ''Foo'' ''Bar''" by (simp add: has_key_def)
  from lookup_not_found [OF n, of "''Baz''" "''Bar''"] a
  have 1: "\<not> contains ?M ''Baz'' \<and> keys ?M ''Baz'' = Inl (UniqueIdDoesNotExist ''Baz'') \<and>
           value_of ?M ''Baz'' ''Bar'' = Inl (KeyOrIdDoNotExist ''Bar'' ''Baz'')"
    by blast
  from lookup_not_found [OF n, of "''Foo''" "''Quux''"] p l
  have 2: "value_of ?M ''Foo'' ''Quux'' = Inl (KeyOrIdDoNotExist ''Quux'' ''Foo'')"
    by blast
  from lookup_not_found [OF n, of "''Foo''" "''Bar''"] p k
  have 3: "(\<exists>ks. keys ?M ''Foo'' = Inr ks) \<and> (\<exists>v. value_of ?M ''Foo'' ''Bar'' = Inr v)"
    by blast
  from n a p l k 1 2 3 show ?thesis by blast
qed

text \<open>
  Claim C8. On every state of the class, \<^verbatim>\<open>idContains(id, key)\<close> returns, and
  returns true exactly when the identifier is in the store and its map has the key; for an
  identifier that is not in the store it returns false and throws nothing. A key that is
  there with the empty string as its value is told apart from a key that is not there:
  \<^verbatim>\<open>idContains\<close> is true for the first, and when it is false \<^verbatim>\<open>value\<close> throws.
\<close>

theorem idContains_correct:
  assumes "store_inv m"
  shows "idContains m uid key = Inr (has_key m uid key) \<and>
         (uid \<notin> fst ` set (metadata m) \<longrightarrow> idContains m uid key = Inr False) \<and>
         (value_of m uid key = Inr [] \<longrightarrow> idContains m uid key = Inr True) \<and>
         (idContains m uid key = Inr False \<longrightarrow> value_of m uid key = Inl (KeyOrIdDoNotExist key uid))"
proof (intro conjI impI)
  show "idContains m uid key = Inr (has_key m uid key)" using assms by (rule idContains_has_key)
  show "idContains m uid key = Inr False" if "uid \<notin> fst ` set (metadata m)"
    using that by (simp add: idContains_absent contains_iff)
  show "idContains m uid key = Inr True" if "value_of m uid key = Inr []"
    using that value_of_iff [of m uid key] by blast
  show "value_of m uid key = Inl (KeyOrIdDoNotExist key uid)" if "idContains m uid key = Inr False"
    using that by (rule value_of_missing)
qed

theorem idContains_correct_witness:
  "store_inv \<lparr>metadata = [(''Foo'', Some [(''Bar'', [])])]\<rparr> \<and>
   value_of \<lparr>metadata = [(''Foo'', Some [(''Bar'', [])])]\<rparr> ''Foo'' ''Bar'' = Inr [] \<and>
   idContains \<lparr>metadata = [(''Foo'', Some [(''Bar'', [])])]\<rparr> ''Foo'' ''Bar'' = Inr True \<and>
   ''Baz'' \<notin> fst ` set (metadata \<lparr>metadata = [(''Foo'', Some [(''Bar'', [])])]\<rparr>) \<and>
   idContains \<lparr>metadata = [(''Foo'', Some [(''Bar'', [])])]\<rparr> ''Baz'' ''Bar'' = Inr False \<and>
   value_of \<lparr>metadata = [(''Foo'', Some [(''Bar'', [])])]\<rparr> ''Baz'' ''Bar'' =
     Inl (KeyOrIdDoNotExist ''Bar'' ''Baz'')"
proof -
  let ?M = "\<lparr>metadata = [(''Foo'', Some [(''Bar'', [])])]\<rparr>"
  have n: "store_inv ?M" by (simp add: store_inv_def map_ok_def entry_ok_def)
  have e: "value_of ?M ''Foo'' ''Bar'' = Inr []"
    by (simp add: value_of_def idContains_def contains_lock_def map_contains_def)
  have a: "''Baz'' \<notin> fst ` set (metadata ?M)" by simp
  from idContains_correct [OF n, of "''Foo''" "''Bar''"] e
  have 1: "idContains ?M ''Foo'' ''Bar'' = Inr True" by blast
  from idContains_correct [OF n, of "''Baz''" "''Bar''"] a
  have 2: "idContains ?M ''Baz'' ''Bar'' = Inr False \<and>
           value_of ?M ''Baz'' ''Bar'' = Inl (KeyOrIdDoNotExist ''Bar'' ''Baz'')"
    by blast
  from n e a 1 2 show ?thesis by blast
qed

subsection \<open>Identifiers created on the way\<close>

text \<open>
  Claim C6. When the identifier is not in the store, \<^verbatim>\<open>add(id, key, v)\<close> and
  \<^verbatim>\<open>update(id, key, v)\<close> both return without throwing; in the store either one leaves,
  \<^verbatim>\<open>contains(id)\<close> is true and \<^verbatim>\<open>value(id, key)\<close> returns \<open>v\<close>.
\<close>

theorem implicit_creation:
  assumes "uid \<notin> fst ` set (metadata m)"
  shows "(\<exists>m1. add_kv m uid key v = (Inr (), m1) \<and> contains m1 uid \<and>
                value_of m1 uid key = Inr v) \<and>
         (\<exists>m2. update m uid key v = (Inr (), m2) \<and> contains m2 uid \<and>
                value_of m2 uid key = Inr v)"
proof -
  have nc: "\<not> contains m uid" using assms by (simp add: contains_iff)
  define m0 where "m0 = snd (add_id m uid)"
  have a: "add_id m uid = (Inr (), m0)"
    using nc by (simp add: m0_def add_id_def contains_eq)
  have "snd (map_insert (metadata m) uid (Some []))"
    using nc by (simp add: map_insert_absent contains_eq)
  then have f0: "map_find (metadata m0) uid = Some (Some [])"
    using nc by (simp add: m0_def add_id_def contains_eq map_find_insert)
  then have c0: "map_contains (metadata m0) uid" by (rule map_find_contains)
  let ?m1 = "m0\<lparr>metadata := pointee_store (metadata m0) uid [(key, v)]\<rparr>"
  have f1: "map_find (metadata ?m1) uid = Some (Some [(key, v)])"
    using c0 by (simp add: map_find_pointee_store)
  have val: "value_of ?m1 uid key = Inr v" by (rule value_of_found [OF f1]) simp
  have con: "contains ?m1 uid" using c0 by (simp add: contains_eq)
  have "add_kv m uid key v = (Inr (), ?m1)"
    using nc a f0 by (simp add: add_kv_def idContains_absent)
  moreover have "update m uid key v = (Inr (), ?m1)"
    using nc a f0 by (simp add: update_def)
  ultimately show ?thesis using val con by blast
qed

theorem implicit_creation_witness:
  "''Foo'' \<notin> fst ` set (metadata Metadata_init) \<and>
   (\<exists>m1. add_kv Metadata_init ''Foo'' ''Bar'' ''Baz'' = (Inr (), m1) \<and> contains m1 ''Foo'' \<and>
          value_of m1 ''Foo'' ''Bar'' = Inr ''Baz'') \<and>
   (\<exists>m2. update Metadata_init ''Foo'' ''Bar'' ''Baz'' = (Inr (), m2) \<and> contains m2 ''Foo'' \<and>
          value_of m2 ''Foo'' ''Bar'' = Inr ''Baz'')"
proof -
  have h: "''Foo'' \<notin> fst ` set (metadata Metadata_init)" by (simp add: Metadata_init_def)
  show ?thesis by (rule conjI [OF h implicit_creation [OF h]])
qed

subsection \<open>erase\<close>

lemma erase_key_result:
  assumes "store_inv m"
  shows "erase_key m uid key = (Inr (), m) \<and> \<not> contains m uid \<or>
         (\<exists>d. map_find (metadata m) uid = Some (Some d) \<and> map_ok d \<and>
              erase_key m uid key =
                (Inr (), m\<lparr>metadata := pointee_store (metadata m) uid (map_erase d key)\<rparr>))"
proof (cases "contains m uid")
  case False
  then show ?thesis by (simp add: erase_key_def contains_eq)
next
  case True
  then obtain ptr where p: "map_find (metadata m) uid = Some ptr"
    by (auto simp: contains_eq map_contains_def)
  from store_inv_find [OF assms p] obtain d where d: "ptr = Some d" "map_ok d" by blast
  then show ?thesis using True p by (simp add: erase_key_def contains_eq)
qed

text \<open>
  Claim C7. On every state of the class, \<^verbatim>\<open>erase(id)\<close> and \<^verbatim>\<open>erase(id, key)\<close> return
  without throwing, whether or not the identifier and the key are there, and a second
  call on the store the first one leaves returns without throwing and leaves that same
  store.
\<close>

theorem erase_idempotent:
  assumes "store_inv m"
  shows "fst (erase_id m uid) = Inr () \<and>
         erase_id (snd (erase_id m uid)) uid = erase_id m uid \<and>
         fst (erase_key m uid key) = Inr () \<and>
         erase_key (snd (erase_key m uid key)) uid key = erase_key m uid key"
proof (intro conjI)
  show "fst (erase_id m uid) = Inr ()" by (simp add: erase_id_def)
  have "map_ok (metadata m)" using assms by (simp add: store_inv_def)
  then show "erase_id (snd (erase_id m uid)) uid = erase_id m uid"
    by (simp add: erase_id_def map_erase_twice)
  from erase_key_result [OF assms, of uid key]
  show "fst (erase_key m uid key) = Inr ()" by auto
  from erase_key_result [OF assms, of uid key]
  show "erase_key (snd (erase_key m uid key)) uid key = erase_key m uid key"
  proof
    assume "erase_key m uid key = (Inr (), m) \<and> \<not> contains m uid"
    then show ?thesis by simp
  next
    assume "\<exists>d. map_find (metadata m) uid = Some (Some d) \<and> map_ok d \<and>
              erase_key m uid key =
                (Inr (), m\<lparr>metadata := pointee_store (metadata m) uid (map_erase d key)\<rparr>)"
    then obtain d where d: "map_find (metadata m) uid = Some (Some d)" "map_ok d" and
      e: "erase_key m uid key =
            (Inr (), m\<lparr>metadata := pointee_store (metadata m) uid (map_erase d key)\<rparr>)"
      by blast
    let ?m1 = "m\<lparr>metadata := pointee_store (metadata m) uid (map_erase d key)\<rparr>"
    have c: "map_contains (metadata m) uid" using d(1) by (rule map_find_contains)
    have "map_find (metadata ?m1) uid = Some (Some (map_erase d key))"
      using c by (simp add: map_find_pointee_store)
    then have "erase_key ?m1 uid key =
        (Inr (), ?m1\<lparr>metadata := pointee_store (metadata ?m1) uid (map_erase (map_erase d key) key)\<rparr>)"
      using c by (simp add: erase_key_def)
    then have "erase_key ?m1 uid key = (Inr (), ?m1)"
      using d(2) by (simp add: pointee_store_twice map_erase_twice)
    then show ?thesis using e by simp
  qed
qed

theorem erase_idempotent_witness:
  "store_inv \<lparr>metadata = [(''Foo'', Some [(''Bait'', ''Quux''), (''Bar'', ''Baz'')])]\<rparr> \<and>
   fst (erase_id \<lparr>metadata = [(''Foo'', Some [(''Bait'', ''Quux''), (''Bar'', ''Baz'')])]\<rparr> ''Foo'') = Inr () \<and>
   erase_id (snd (erase_id \<lparr>metadata = [(''Foo'', Some [(''Bait'', ''Quux''), (''Bar'', ''Baz'')])]\<rparr> ''Foo'')) ''Foo'' =
     erase_id \<lparr>metadata = [(''Foo'', Some [(''Bait'', ''Quux''), (''Bar'', ''Baz'')])]\<rparr> ''Foo'' \<and>
   fst (erase_key \<lparr>metadata = [(''Foo'', Some [(''Bait'', ''Quux''), (''Bar'', ''Baz'')])]\<rparr> ''Foo'' ''Bar'') = Inr () \<and>
   erase_key (snd (erase_key \<lparr>metadata = [(''Foo'', Some [(''Bait'', ''Quux''), (''Bar'', ''Baz'')])]\<rparr> ''Foo'' ''Bar'')) ''Foo'' ''Bar'' =
     erase_key \<lparr>metadata = [(''Foo'', Some [(''Bait'', ''Quux''), (''Bar'', ''Baz'')])]\<rparr> ''Foo'' ''Bar''"
proof -
  have h: "store_inv \<lparr>metadata = [(''Foo'', Some [(''Bait'', ''Quux''), (''Bar'', ''Baz'')])]\<rparr>"
    by (simp add: store_inv_def map_ok_def entry_ok_def)
  show ?thesis by (rule conjI [OF h erase_idempotent [OF h]])
qed

subsection \<open>No null pointer\<close>

lemma nonnull_add_kv: "nonnull m \<Longrightarrow> nonnull (snd (add_kv m uid key v))"
  using nonnull_add_id [of m uid]
  by (auto simp: add_kv_def nonnull_pointee_store
      split: sum.splits bool.splits option.splits prod.splits if_splits)

lemma nonnull_update: "nonnull m \<Longrightarrow> nonnull (snd (update m uid key v))"
  using update_ok [of m uid key v] by auto

lemma nonnull_erase_id: "nonnull m \<Longrightarrow> nonnull (snd (erase_id m uid))"
  by (simp add: erase_id_def nonnull_def list_all_erase)

lemma nonnull_erase_key: "nonnull m \<Longrightarrow> nonnull (snd (erase_key m uid key))"
  by (auto simp: erase_key_def nonnull_pointee_store split: option.splits)

lemma load_entries_nonnull:
  "list_all (\<lambda>p. snd p \<noteq> None) acc \<Longrightarrow> load_entries fs acc = Inr mm \<Longrightarrow>
   list_all (\<lambda>p. snd p \<noteq> None) mm"
proof (induction fs arbitrary: acc)
  case Nil
  then show ?case by simp
next
  case (Cons f fs)
  from Cons.prems(2) obtain d where
    d: "load_DataType (snd f) = Inr d" and
    r: "load_entries fs (fst (map_insert acc (fst f) (Some d))) = Inr mm"
    by (auto split: sum.splits)
  have "list_all (\<lambda>p. snd p \<noteq> None) (fst (map_insert acc (fst f) (Some d)))"
    using Cons.prems(1) by (simp add: list_all_insert)
  then show ?case using r by (rule Cons.IH)
qed

lemma nonnull_fromJson: "nonnull m \<Longrightarrow> nonnull (snd (fromJson m data))"
proof -
  assume n: "nonnull m"
  have "nonnull (snd (serialize_load m j))" for j
  proof (cases "load_MetadataMap j")
    case (Inl e)
    then show ?thesis using n by (simp add: serialize_load_def)
  next
    case (Inr mm)
    then obtain fs where "load_entries fs [] = Inr mm"
      by (auto simp: load_MetadataMap_def split: json.splits)
    from load_entries_nonnull [OF _ this] have "list_all (\<lambda>p. snd p \<noteq> None) mm" by simp
    then show ?thesis using Inr by (simp add: serialize_load_def nonnull_def)
  qed
  then show ?thesis using n by (simp add: fromJson_def split: json.splits list.splits)
qed

lemma nonnull_apply_call: "nonnull m \<Longrightarrow> nonnull (snd (apply_call m c))"
  by (cases c)
    (simp_all add: nonnull_add_id nonnull_add_kv nonnull_update nonnull_erase_id
      nonnull_erase_key nonnull_fromJson)

lemma nonnull_run: "nonnull m \<Longrightarrow> nonnull (run m cs)"
  by (induction cs arbitrary: m) (simp_all add: nonnull_apply_call)

text \<open>
  Claim C9. The store a new object starts with has no null pointer; each of \<^verbatim>\<open>add(id)\<close>,
  \<^verbatim>\<open>add(id, key, value)\<close>, \<^verbatim>\<open>update\<close>, \<^verbatim>\<open>erase(id)\<close>, \<^verbatim>\<open>erase(id, key)\<close> and \<^verbatim>\<open>fromJson\<close>
  leaves a store without null pointers when it starts from one, whether it returns or
  throws; so no sequence of these calls on a new object reaches a store with a null
  pointer. The map an identifier points to may be empty.
\<close>

theorem nonnull_invariant:
  "nonnull Metadata_init \<and>
   (nonnull m \<longrightarrow>
      nonnull (snd (add_id m uid)) \<and> nonnull (snd (add_kv m uid key val)) \<and>
      nonnull (snd (update m uid key val)) \<and> nonnull (snd (erase_id m uid)) \<and>
      nonnull (snd (erase_key m uid key)) \<and> nonnull (snd (fromJson m data))) \<and>
   nonnull (run Metadata_init cs)"
proof -
  have i: "nonnull Metadata_init" by (simp add: nonnull_def Metadata_init_def)
  then have "nonnull (run Metadata_init cs)" by (rule nonnull_run)
  with i show ?thesis
    by (simp add: nonnull_add_id nonnull_add_kv nonnull_update nonnull_erase_id
        nonnull_erase_key nonnull_fromJson)
qed

theorem nonnull_invariant_witness:
  "nonnull \<lparr>metadata = [(''Foo'', Some [(''Bar'', ''Baz'')])]\<rparr> \<and>
   nonnull (snd (add_id \<lparr>metadata = [(''Foo'', Some [(''Bar'', ''Baz'')])]\<rparr> ''Baz'')) \<and>
   nonnull (snd (add_kv \<lparr>metadata = [(''Foo'', Some [(''Bar'', ''Baz'')])]\<rparr> ''Baz'' ''Bar'' ''Quux'')) \<and>
   nonnull (snd (update \<lparr>metadata = [(''Foo'', Some [(''Bar'', ''Baz'')])]\<rparr> ''Baz'' ''Bar'' ''Quux'')) \<and>
   nonnull (snd (erase_id \<lparr>metadata = [(''Foo'', Some [(''Bar'', ''Baz'')])]\<rparr> ''Baz'')) \<and>
   nonnull (snd (erase_key \<lparr>metadata = [(''Foo'', Some [(''Bar'', ''Baz'')])]\<rparr> ''Baz'' ''Bar'')) \<and>
   nonnull (snd (fromJson \<lparr>metadata = [(''Foo'', Some [(''Bar'', ''Baz'')])]\<rparr>
     (JObject [(''m'', JObject [(''Baz'', JObject [(''Bar'', JString ''Quux'')])])])))"
proof -
  let ?M = "\<lparr>metadata = [(''Foo'', Some [(''Bar'', ''Baz'')])]\<rparr>"
  have h: "nonnull ?M" by (simp add: nonnull_def)
  from nonnull_invariant [of ?M "''Baz''" "''Bar''" "''Quux''"
      "JObject [(''m'', JObject [(''Baz'', JObject [(''Bar'', JString ''Quux'')])])]"] h
  show ?thesis by blast
qed

subsection \<open>The order of the maps and of the listings\<close>

lemma store_inv_init: "store_inv Metadata_init"
  by (simp add: store_inv_def Metadata_init_def map_ok_def)

lemma store_inv_add_id: "store_inv m \<Longrightarrow> store_inv (snd (add_id m uid))"
proof -
  have "entry_ok (Some [])" by (simp add: entry_ok_def map_ok_def)
  then show "store_inv m \<Longrightarrow> store_inv (snd (add_id m uid))"
    by (simp add: add_id_def store_inv_def map_ok_insert list_all_insert)
qed

lemma store_inv_pointee_store:
  assumes "store_inv m" and "map_ok d"
  shows "store_inv (m\<lparr>metadata := pointee_store (metadata m) uid d\<rparr>)"
  using assms list_all_pointee_store [of entry_ok "metadata m" d uid]
  by (simp add: store_inv_def map_ok_pointee_store entry_ok_def)

lemma store_inv_add_kv:
  assumes "store_inv m"
  shows "store_inv (snd (add_kv m uid key v))"
proof -
  define m0 where "m0 = (if \<not> contains m uid then snd (add_id m uid) else m)"
  have i0: "store_inv m0" using assms by (simp add: m0_def store_inv_add_id)
  have "snd (add_kv m uid key v) = m \<or> snd (add_kv m uid key v) = m0 \<or>
        (\<exists>d. map_find (metadata m0) uid = Some (Some d) \<and>
           snd (add_kv m uid key v) =
             m0\<lparr>metadata := pointee_store (metadata m0) uid (fst (map_insert d key v))\<rparr>)"
    by (auto simp: add_kv_def m0_def add_id_def
        split: sum.splits bool.splits option.splits prod.splits if_splits)
  then show ?thesis
  proof (elim disjE exE conjE)
    fix d
    assume f: "map_find (metadata m0) uid = Some (Some d)" and
      r: "snd (add_kv m uid key v) =
            m0\<lparr>metadata := pointee_store (metadata m0) uid (fst (map_insert d key v))\<rparr>"
    from store_inv_find [OF i0 f] have "map_ok d" by simp
    then have "map_ok (fst (map_insert d key v))" by (rule map_ok_insert)
    with i0 show ?thesis unfolding r by (rule store_inv_pointee_store)
  qed (simp_all add: assms i0)
qed

lemma store_inv_update:
  assumes "store_inv m"
  shows "store_inv (snd (update m uid key v))"
proof -
  define m0 where "m0 = (if \<not> contains m uid then snd (add_id m uid) else m)"
  have i0: "store_inv m0" using assms by (simp add: m0_def store_inv_add_id)
  have "snd (update m uid key v) = m0 \<or>
        (\<exists>d. map_find (metadata m0) uid = Some (Some d) \<and>
           snd (update m uid key v) =
             m0\<lparr>metadata := pointee_store (metadata m0) uid (map_subscript_assign d key v)\<rparr>)"
    by (auto simp: update_def m0_def add_id_def
        split: sum.splits bool.splits option.splits prod.splits if_splits)
  then show ?thesis
  proof (elim disjE exE conjE)
    fix d
    assume f: "map_find (metadata m0) uid = Some (Some d)" and
      r: "snd (update m uid key v) =
            m0\<lparr>metadata := pointee_store (metadata m0) uid (map_subscript_assign d key v)\<rparr>"
    from store_inv_find [OF i0 f] have "map_ok d" by simp
    then have "map_ok (map_subscript_assign d key v)" by (rule map_ok_subscript_assign)
    with i0 show ?thesis unfolding r by (rule store_inv_pointee_store)
  qed (simp_all add: i0)
qed

lemma store_inv_erase_id: "store_inv m \<Longrightarrow> store_inv (snd (erase_id m uid))"
  by (simp add: erase_id_def store_inv_def map_ok_erase list_all_erase)

lemma store_inv_erase_key:
  assumes "store_inv m"
  shows "store_inv (snd (erase_key m uid key))"
  using erase_key_result [OF assms, of uid key]
proof (elim disjE exE conjE)
  fix d
  assume "map_ok d" and
    r: "erase_key m uid key =
          (Inr (), m\<lparr>metadata := pointee_store (metadata m) uid (map_erase d key)\<rparr>)"
  then have "map_ok (map_erase d key)" by (simp add: map_ok_erase)
  with assms show ?thesis unfolding r snd_conv by (rule store_inv_pointee_store)
qed (simp add: assms)

lemma load_pairs_ok: "map_ok acc \<Longrightarrow> load_pairs fs acc = Inr d \<Longrightarrow> map_ok d"
proof (induction fs arbitrary: acc)
  case Nil
  then show ?case by simp
next
  case (Cons f fs)
  from Cons.prems(2) obtain v where
    r: "load_pairs fs (fst (map_insert acc (fst f) v)) = Inr d"
    by (auto split: json.splits)
  have "map_ok (fst (map_insert acc (fst f) v))" using Cons.prems(1) by (rule map_ok_insert)
  then show ?case using r by (rule Cons.IH)
qed

lemma load_DataType_ok: "load_DataType j = Inr d \<Longrightarrow> map_ok d"
  using load_pairs_ok [of "[]"]
  by (auto simp: load_DataType_def map_ok_def split: json.splits)

lemma load_entries_ok:
  "map_ok acc \<Longrightarrow> list_all (\<lambda>p. entry_ok (snd p)) acc \<Longrightarrow> load_entries fs acc = Inr mm \<Longrightarrow>
   map_ok mm \<and> list_all (\<lambda>p. entry_ok (snd p)) mm"
proof (induction fs arbitrary: acc)
  case Nil
  then show ?case by simp
next
  case (Cons f fs)
  from Cons.prems(3) obtain d where
    d: "load_DataType (snd f) = Inr d" and
    r: "load_entries fs (fst (map_insert acc (fst f) (Some d))) = Inr mm"
    by (auto split: sum.splits)
  have "entry_ok (Some d)" using load_DataType_ok [OF d] by (simp add: entry_ok_def)
  then have "list_all (\<lambda>p. entry_ok (snd p)) (fst (map_insert acc (fst f) (Some d)))"
    using Cons.prems(2) by (simp add: list_all_insert)
  moreover have "map_ok (fst (map_insert acc (fst f) (Some d)))"
    using Cons.prems(1) by (rule map_ok_insert)
  ultimately show ?case using r Cons.IH by blast
qed

lemma store_inv_fromJson:
  assumes "store_inv m"
  shows "store_inv (snd (fromJson m data))"
proof -
  have "store_inv (snd (serialize_load m j))" for j
  proof (cases "load_MetadataMap j")
    case (Inl e)
    then show ?thesis using assms by (simp add: serialize_load_def)
  next
    case (Inr mm)
    then obtain fs where "load_entries fs [] = Inr mm"
      by (auto simp: load_MetadataMap_def split: json.splits)
    from load_entries_ok [OF _ _ this]
    have "map_ok mm \<and> list_all (\<lambda>p. entry_ok (snd p)) mm" by (simp add: map_ok_def)
    then show ?thesis using Inr by (simp add: serialize_load_def store_inv_def)
  qed
  then show ?thesis using assms by (simp add: fromJson_def split: json.splits list.splits)
qed

lemma store_inv_apply_call: "store_inv m \<Longrightarrow> store_inv (snd (apply_call m c))"
  by (cases c)
    (simp_all add: store_inv_add_id store_inv_add_kv store_inv_update store_inv_erase_id
      store_inv_erase_key store_inv_fromJson)

lemma store_inv_run: "store_inv m \<Longrightarrow> store_inv (run m cs)"
  by (induction cs arbitrary: m) (simp_all add: store_inv_apply_call)

text \<open>Every store that a sequence of calls makes of a new object is a state of the class.\<close>

lemma store_inv_reachable: "store_inv (run Metadata_init cs)"
  using store_inv_init by (rule store_inv_run)

lemma map_ok_listing:
  "map_ok ps \<Longrightarrow> sorted_wrt (<) (push_back_firsts ps []) \<and> distinct (push_back_firsts ps []) \<and>
     set (push_back_firsts ps []) = fst ` set ps"
  by (simp add: push_back_firsts_eq map_ok_def strict_sorted_iff)

text \<open>
  Claim C10. On every state of the class, \<^verbatim>\<open>ids()\<close> returns the identifiers of the store
  in strictly ascending order of the strings, each once; and for an identifier in the
  store \<^verbatim>\<open>keys(id)\<close> returns the keys of its map in strictly ascending order, each once.
\<close>

theorem listings_ascending:
  assumes "store_inv m"
  shows "sorted_wrt (<) (ids m) \<and> distinct (ids m) \<and> set (ids m) = fst ` set (metadata m) \<and>
         (uid \<in> fst ` set (metadata m) \<longrightarrow>
            (\<exists>ks. keys m uid = Inr ks \<and> sorted_wrt (<) ks \<and> distinct ks \<and>
                  (\<forall>key. key \<in> set ks \<longleftrightarrow> has_key m uid key)))"
proof -
  have "map_ok (metadata m)" using assms by (simp add: store_inv_def)
  from map_ok_listing [OF this]
  have 1: "sorted_wrt (<) (ids m) \<and> distinct (ids m) \<and> set (ids m) = fst ` set (metadata m)"
    by (simp add: ids_def)
  have 2: "\<exists>ks. keys m uid = Inr ks \<and> sorted_wrt (<) ks \<and> distinct ks \<and>
                  (\<forall>key. key \<in> set ks \<longleftrightarrow> has_key m uid key)"
    if "uid \<in> fst ` set (metadata m)"
  proof -
    from that have c: "map_contains (metadata m) uid" by (simp add: map_contains_iff)
    then obtain ptr where p: "map_find (metadata m) uid = Some ptr"
      by (auto simp: map_contains_def)
    from store_inv_find [OF assms p] obtain d where d: "ptr = Some d" "map_ok d" by blast
    have k: "keys m uid = Inr (push_back_firsts d [])"
      using c p d by (simp add: keys_def)
    have "\<forall>key. key \<in> fst ` set d \<longleftrightarrow> has_key m uid key"
      using p d by (simp add: has_key_find [OF assms] map_find_None_iff)
    with map_ok_listing [OF d(2)] k show ?thesis by simp
  qed
  from 1 2 show ?thesis by blast
qed

theorem listings_ascending_witness:
  "store_inv (run Metadata_init [Update ''b'' ''y'' ''1'', Update ''a'' ''k'' ''2'', Add_kv ''b'' ''x'' ''3'']) \<and>
   ids (run Metadata_init [Update ''b'' ''y'' ''1'', Update ''a'' ''k'' ''2'', Add_kv ''b'' ''x'' ''3'']) = [''a'', ''b''] \<and>
   keys (run Metadata_init [Update ''b'' ''y'' ''1'', Update ''a'' ''k'' ''2'', Add_kv ''b'' ''x'' ''3'']) ''b'' = Inr [''x'', ''y''] \<and>
   sorted_wrt (<) (ids (run Metadata_init [Update ''b'' ''y'' ''1'', Update ''a'' ''k'' ''2'', Add_kv ''b'' ''x'' ''3''])) \<and>
   distinct (ids (run Metadata_init [Update ''b'' ''y'' ''1'', Update ''a'' ''k'' ''2'', Add_kv ''b'' ''x'' ''3''])) \<and>
   (\<exists>ks. keys (run Metadata_init [Update ''b'' ''y'' ''1'', Update ''a'' ''k'' ''2'', Add_kv ''b'' ''x'' ''3'']) ''b'' = Inr ks \<and>
         sorted_wrt (<) ks \<and> distinct ks)"
proof -
  let ?M = "run Metadata_init [Update ''b'' ''y'' ''1'', Update ''a'' ''k'' ''2'', Add_kv ''b'' ''x'' ''3'']"
  have v: "?M = \<lparr>metadata = [(''a'', Some [(''k'', ''2'')]), (''b'', Some [(''x'', ''3''), (''y'', ''1'')])]\<rparr>"
    by code_simp
  have h: "store_inv ?M" unfolding v by (simp add: store_inv_def map_ok_def entry_ok_def)
  have i: "ids ?M = [''a'', ''b'']" unfolding v by (simp add: ids_def)
  have k: "keys ?M ''b'' = Inr [''x'', ''y'']"
    unfolding v by (simp add: keys_def contains_lock_def map_contains_def)
  have p: "''b'' \<in> fst ` set (metadata ?M)" unfolding v by simp
  from listings_ascending [OF h, of "''b''"] p
  have "sorted_wrt (<) (ids ?M) \<and> distinct (ids ?M) \<and>
        (\<exists>ks. keys ?M ''b'' = Inr ks \<and> sorted_wrt (<) ks \<and> distinct ks)"
    by blast
  with h i k show ?thesis by blast
qed

subsection \<open>From a store to its document and back\<close>

lemma map_insert_last:
  "\<forall>x\<in>fst ` set acc. x < k \<Longrightarrow> map_insert acc k v = (acc @ [(k, v)], True)"
  by (induction acc) (auto dest: less_asym)

lemma map_ok_append_less: "map_ok (acc @ p # ps) \<Longrightarrow> \<forall>x\<in>fst ` set acc. x < fst p"
  by (auto simp: map_ok_def sorted_wrt_append)

lemma load_pairs_save:
  "map_ok (acc @ d) \<Longrightarrow> load_pairs (map (\<lambda>p. (fst p, JString (snd p))) d) acc = Inr (acc @ d)"
proof (induction d arbitrary: acc)
  case Nil
  show ?case by simp
next
  case (Cons p d)
  have "map_insert acc (fst p) (snd p) = (acc @ [p], True)"
    using map_insert_last [OF map_ok_append_less [OF Cons.prems], of "snd p"] by simp
  moreover have "load_pairs (map (\<lambda>p. (fst p, JString (snd p))) d) (acc @ [p]) = Inr ((acc @ [p]) @ d)"
    using Cons.prems by (intro Cons.IH) simp
  ultimately show ?case by simp
qed

lemma load_DataType_save: "map_ok d \<Longrightarrow> load_DataType (save_DataType d) = Inr d"
  using load_pairs_save [of "[]" d] by (simp add: load_DataType_def save_DataType_def)

lemma load_entries_save:
  "map_ok (acc @ mm) \<Longrightarrow> list_all (\<lambda>p. entry_ok (snd p)) mm \<Longrightarrow>
   load_entries (map (\<lambda>p. (fst p, save_Data (snd p))) mm) acc = Inr (acc @ mm)"
proof (induction mm arbitrary: acc)
  case Nil
  show ?case by simp
next
  case (Cons p mm)
  from Cons.prems(2) obtain d where d: "snd p = Some d" "map_ok d"
    by (cases "snd p") (simp_all add: entry_ok_def)
  have l: "load_DataType (save_Data (snd p)) = Inr d"
    using d by (simp add: save_Data_def load_DataType_save)
  have "map_insert acc (fst p) (Some d) = (acc @ [p], True)"
    using map_insert_last [OF map_ok_append_less [OF Cons.prems(1)], of "Some d"] d(1)
    by (cases p) simp
  moreover have "load_entries (map (\<lambda>p. (fst p, save_Data (snd p))) mm) (acc @ [p]) =
      Inr ((acc @ [p]) @ mm)"
    using Cons.prems by (intro Cons.IH) simp_all
  ultimately show ?case using l by simp
qed

lemma load_MetadataMap_save:
  "store_inv m \<Longrightarrow> load_MetadataMap (save_MetadataMap (metadata m)) = Inr (metadata m)"
  using load_entries_save [of "[]" "metadata m"]
  by (simp add: load_MetadataMap_def save_MetadataMap_def store_inv_def)

text \<open>
  Claim C1. For every state \<open>S\<close> of the class, \<^verbatim>\<open>fromJson\<close> on a new object and the
  document \<^verbatim>\<open>toJson\<close> makes of \<open>S\<close> returns without throwing and leaves a store equal to
  \<open>S\<close>: the same identifiers, and for every identifier and key the same outcome of
  \<^verbatim>\<open>value\<close>.
\<close>

theorem json_roundtrip:
  assumes "store_inv S"
  shows "fromJson Metadata_init (toJson S) = (Inr (), S) \<and>
         set (ids (snd (fromJson Metadata_init (toJson S)))) = set (ids S) \<and>
         (\<forall>uid key. value_of (snd (fromJson Metadata_init (toJson S))) uid key =
                     value_of S uid key)"
proof -
  have "fromJson Metadata_init (toJson S) = (Inr (), S)"
    using load_MetadataMap_save [OF assms]
    by (simp add: fromJson_def toJson_def serialize_load_def serialize_save_def)
  then show ?thesis by simp
qed

theorem json_roundtrip_witness:
  "store_inv \<lparr>metadata = [(''Foo'', Some [(''Bait'', ''Quux''), (''Bar'', ''Baz'')])]\<rparr> \<and>
   toJson \<lparr>metadata = [(''Foo'', Some [(''Bait'', ''Quux''), (''Bar'', ''Baz'')])]\<rparr> =
     JObject [(''m'', JObject [(''Foo'',
       JObject [(''Bait'', JString ''Quux''), (''Bar'', JString ''Baz'')])])] \<and>
   fromJson Metadata_init
     (toJson \<lparr>metadata = [(''Foo'', Some [(''Bait'', ''Quux''), (''Bar'', ''Baz'')])]\<rparr>) =
     (Inr (), \<lparr>metadata = [(''Foo'', Some [(''Bait'', ''Quux''), (''Bar'', ''Baz'')])]\<rparr>)"
proof -
  let ?M = "\<lparr>metadata = [(''Foo'', Some [(''Bait'', ''Quux''), (''Bar'', ''Baz'')])]\<rparr>"
  have h: "store_inv ?M" by (simp add: store_inv_def map_ok_def entry_ok_def)
  have t: "toJson ?M = JObject [(''m'', JObject [(''Foo'',
       JObject [(''Bait'', JString ''Quux''), (''Bar'', JString ''Baz'')])])]"
    by (simp add: toJson_def serialize_save_def save_MetadataMap_def save_Data_def
        save_DataType_def)
  from json_roundtrip [OF h] have "fromJson Metadata_init (toJson ?M) = (Inr (), ?M)" by blast
  with h t show ?thesis by blast
qed

end
